theory Spec2Isabelle
  imports Main
begin

section \<open>The store of app.py: two SQLite tables behind one connection\<close>

text \<open>
  \<^verbatim>\<open>app.py\<close> keeps its state in the SQLite file \<^verbatim>\<open>mt_dashboard.db\<close>, reached through
  one cached connection (\<^verbatim>\<open>get_conn\<close>) opened with \<^verbatim>\<open>isolation_level=None\<close>, so every
  statement commits on its own. The model is explicit state passing: each SQL statement
  is a function from the connection state to an error or the new state, and each Python
  function of the source is a function built from the statements it executes, in the
  order it executes them.

  Python values: a \<^verbatim>\<open>str\<close> that is only compared for equality (category, user id) is a
  \<open>string\<close>; the suggestion text, which is stripped of Unicode white space, is the list
  of its code points. Row ids and the \<^verbatim>\<open>idea_id\<close> argument are Python/SQLite integers,
  modelled as \<open>int\<close> (the 64-bit limit of a rowid is not reached by counting up from 1 and
  is left out). \<^verbatim>\<open>CURRENT_TIMESTAMP\<close> is the clock of the environment: every statement
  that reads it takes the current time as an argument, in whole seconds, which is the
  resolution of the text SQLite stores; the fixed-width text \<^verbatim>\<open>YYYY-MM-DD HH:MM:SS\<close> is
  ordered as the number of seconds is.
\<close>

type_synonym pystr = "nat list"
type_synonym timestamp = nat

text \<open>Table \<^verbatim>\<open>ideas\<close> (lines 43-53). Column \<^verbatim>\<open>votes\<close> is the legacy counter.\<close>

record idea =
  ideas_id :: int
  ideas_category :: string
  ideas_content :: pystr
  ideas_votes :: int
  ideas_created_at :: timestamp

text \<open>Table \<^verbatim>\<open>votes\<close> (lines 56-67).\<close>

record vote =
  votes_id :: int
  votes_idea_id :: int
  votes_user_id :: string
  votes_created_at :: timestamp

text \<open>
  The connection: the rows of both tables in rowid order, the \<^verbatim>\<open>sqlite_sequence\<close> entry
  that \<^verbatim>\<open>AUTOINCREMENT\<close> keeps for each table (the largest rowid ever handed out), and
  the per-connection setting \<^verbatim>\<open>PRAGMA foreign_keys\<close>. SQLite enforces a
  \<^verbatim>\<open>FOREIGN KEY\<close> clause, its \<^verbatim>\<open>ON DELETE CASCADE\<close> included, only on a connection where
  that pragma is on; it is off on a new connection, and it is not stored in the file.
\<close>

record conn =
  ideas :: "idea list"
  votes :: "vote list"
  ideas_seq :: int
  votes_seq :: int
  foreign_keys :: bool

datatype sqlite_error = IntegrityError | OperationalError

text \<open>What a Python call hands back: a function body without \<^verbatim>\<open>return\<close> yields \<^verbatim>\<open>None\<close>.\<close>

datatype pyval = PyNone | PyBool bool

text \<open>
  \<^verbatim>\<open>get_conn\<close> (lines 36-70) on a new database file: it sets \<^verbatim>\<open>journal_mode\<close> and
  \<^verbatim>\<open>synchronous\<close>, creates both tables empty and three indexes. It never executes
  \<^verbatim>\<open>PRAGMA foreign_keys = ON\<close>, so the setting keeps its default.
\<close>

definition get_conn :: conn where
  "get_conn = \<lparr>ideas = [], votes = [], ideas_seq = 0, votes_seq = 0, foreign_keys = False\<rparr>"

subsection \<open>The SQL statements\<close>

text \<open>
  \<^verbatim>\<open>INTEGER PRIMARY KEY AUTOINCREMENT\<close>: the new rowid is one more than the largest of the
  \<^verbatim>\<open>sqlite_sequence\<close> entry and the rowids present, so that no id is ever used twice.
\<close>

definition next_rowid :: "int \<Rightarrow> int list \<Rightarrow> int" where
  "next_rowid seq ids = fold max ids seq + 1"

text \<open>
  Line 87: \<^verbatim>\<open>INSERT INTO ideas(category, content, votes) VALUES (?, ?, 0)\<close>. The
  \<^verbatim>\<open>CHECK\<close> on \<^verbatim>\<open>category\<close> fails the statement with \<^verbatim>\<open>sqlite3.IntegrityError\<close>.
\<close>

definition insert_idea :: "string \<Rightarrow> pystr \<Rightarrow> timestamp \<Rightarrow> conn \<Rightarrow> sqlite_error + conn" where
  "insert_idea category content now c =
     (if category \<noteq> ''food'' \<and> category \<noteq> ''festival'' then Inl IntegrityError
      else
        let n = next_rowid (ideas_seq c) (map ideas_id (ideas c)) in
        Inr (c\<lparr>ideas := ideas c @
                 [\<lparr>ideas_id = n, ideas_category = category, ideas_content = content,
                   ideas_votes = 0, ideas_created_at = now\<rparr>],
               ideas_seq := n\<rparr>))"

text \<open>Lines 92 and 98: the rows \<^verbatim>\<open>WHERE idea_id = ? AND user_id = ?\<close>.\<close>

definition vote_matches :: "int \<Rightarrow> string \<Rightarrow> vote \<Rightarrow> bool" where
  "vote_matches idea_id user_id v \<longleftrightarrow> votes_idea_id v = idea_id \<and> votes_user_id v = user_id"

text \<open>Line 98: \<^verbatim>\<open>SELECT id FROM votes WHERE ... LIMIT 1\<close> with \<^verbatim>\<open>fetchone()\<close>.\<close>

definition select_vote_id :: "int \<Rightarrow> string \<Rightarrow> conn \<Rightarrow> int option" where
  "select_vote_id idea_id user_id c =
     map_option votes_id (find (vote_matches idea_id user_id) (votes c))"

text \<open>Line 102: \<^verbatim>\<open>DELETE FROM votes WHERE id = ?\<close>.\<close>

definition delete_vote :: "int \<Rightarrow> conn \<Rightarrow> sqlite_error + conn" where
  "delete_vote vid c = Inr (c\<lparr>votes := filter (\<lambda>v. votes_id v \<noteq> vid) (votes c)\<rparr>)"

text \<open>
  Line 106: \<^verbatim>\<open>INSERT INTO votes(idea_id, user_id) VALUES (?, ?)\<close>. \<^verbatim>\<open>UNIQUE(idea_id,
  user_id)\<close> is always enforced; the reference to \<^verbatim>\<open>ideas(id)\<close> only where foreign keys
  are on. Either failure is \<^verbatim>\<open>sqlite3.IntegrityError\<close> and changes nothing.
\<close>

definition insert_vote :: "int \<Rightarrow> string \<Rightarrow> timestamp \<Rightarrow> conn \<Rightarrow> sqlite_error + conn" where
  "insert_vote idea_id user_id now c =
     (if list_ex (vote_matches idea_id user_id) (votes c) then Inl IntegrityError
      else if foreign_keys c \<and> \<not> list_ex (\<lambda>i. ideas_id i = idea_id) (ideas c)
      then Inl IntegrityError
      else
        let n = next_rowid (votes_seq c) (map votes_id (votes c)) in
        Inr (c\<lparr>votes := votes c @
                 [\<lparr>votes_id = n, votes_idea_id = idea_id, votes_user_id = user_id,
                   votes_created_at = now\<rparr>],
               votes_seq := n\<rparr>))"

text \<open>
  Line 114: \<^verbatim>\<open>DELETE FROM ideas WHERE id = ?\<close>. The rows of \<^verbatim>\<open>votes\<close> that reference the
  deleted idea go with it where foreign keys are on, and stay where they are off.
\<close>

definition delete_from_ideas :: "int \<Rightarrow> conn \<Rightarrow> sqlite_error + conn" where
  "delete_from_ideas idea_id c =
     Inr (c\<lparr>ideas := filter (\<lambda>i. ideas_id i \<noteq> idea_id) (ideas c),
            votes := (if foreign_keys c
                      then filter (\<lambda>v. votes_idea_id v \<noteq> idea_id) (votes c)
                      else votes c)\<rparr>)"

subsection \<open>The Python functions\<close>

text \<open>
  \<^verbatim>\<open>str.strip()\<close> removes the code points for which \<^verbatim>\<open>str.isspace\<close> holds from both
  ends.
\<close>

definition py_isspace :: "nat \<Rightarrow> bool" where
  "py_isspace k \<longleftrightarrow>
     (9 \<le> k \<and> k \<le> 13) \<or> (28 \<le> k \<and> k \<le> 32) \<or> k = 133 \<or> k = 160 \<or> k = 5760 \<or>
     (8192 \<le> k \<and> k \<le> 8202) \<or> k = 8232 \<or> k = 8233 \<or> k = 8239 \<or> k = 8287 \<or> k = 12288"

definition py_strip :: "pystr \<Rightarrow> pystr" where
  "py_strip s = rev (dropWhile py_isspace (rev (dropWhile py_isspace s)))"

text \<open>
  \<^verbatim>\<open>add_idea\<close> (lines 82-88). \<^verbatim>\<open>content or ""\<close> turns \<^verbatim>\<open>None\<close> into the empty string. An
  error of the \<^verbatim>\<open>INSERT\<close> is not caught.
\<close>

definition add_idea ::
  "string \<Rightarrow> pystr option \<Rightarrow> timestamp \<Rightarrow> conn \<Rightarrow> sqlite_error + (bool \<times> conn)" where
  "add_idea category content now c =
     (let content = py_strip (case content of None \<Rightarrow> [] | Some s \<Rightarrow> s) in
      if content = [] then Inr (False, c)
      else case insert_idea category content now c of
             Inl e \<Rightarrow> Inl e
           | Inr c' \<Rightarrow> Inr (True, c'))"

text \<open>\<^verbatim>\<open>has_voted\<close> (lines 90-93): \<^verbatim>\<open>SELECT 1 ... LIMIT 1\<close> returns a row or none.\<close>

definition has_voted :: "int \<Rightarrow> string \<Rightarrow> conn \<Rightarrow> bool" where
  "has_voted idea_id user_id c \<longleftrightarrow> find (vote_matches idea_id user_id) (votes c) \<noteq> None"

text \<open>
  Lines 105-109: the \<^verbatim>\<open>INSERT\<close> inside \<^verbatim>\<open>try\<close>, with \<^verbatim>\<open>except sqlite3.IntegrityError:
  pass\<close>. Any other error passes through.
\<close>

definition try_insert_vote :: "int \<Rightarrow> string \<Rightarrow> timestamp \<Rightarrow> conn \<Rightarrow> sqlite_error + conn" where
  "try_insert_vote idea_id user_id now c =
     (case insert_vote idea_id user_id now c of
        Inl IntegrityError \<Rightarrow> Inr c
      | Inl e \<Rightarrow> Inl e
      | Inr c' \<Rightarrow> Inr c')"

text \<open>
  \<^verbatim>\<open>toggle_vote\<close> (lines 95-109): look the vote up, delete it by its row id if there is
  one, insert it otherwise. The body has no \<^verbatim>\<open>return\<close>.
\<close>

definition toggle_vote ::
  "int \<Rightarrow> string \<Rightarrow> timestamp \<Rightarrow> conn \<Rightarrow> sqlite_error + (pyval \<times> conn)" where
  "toggle_vote idea_id user_id now c =
     (case (case select_vote_id idea_id user_id c of
              Some vid \<Rightarrow> delete_vote vid c
            | None \<Rightarrow> try_insert_vote idea_id user_id now c) of
        Inl e \<Rightarrow> Inl e
      | Inr c' \<Rightarrow> Inr (PyNone, c'))"

text \<open>\<^verbatim>\<open>delete_idea\<close> (lines 111-114).\<close>

definition delete_idea :: "int \<Rightarrow> conn \<Rightarrow> sqlite_error + (pyval \<times> conn)" where
  "delete_idea idea_id c =
     (case delete_from_ideas idea_id c of
        Inl e \<Rightarrow> Inl e
      | Inr c' \<Rightarrow> Inr (PyNone, c'))"

subsection \<open>The ranked listing\<close>

text \<open>
  \<^verbatim>\<open>fetch_ideas\<close> (lines 116-146) is one \<^verbatim>\<open>SELECT\<close> over \<^verbatim>\<open>ideas\<close> with two left joins.
  A left join keeps every row of its left side: once for each row of the right side that
  satisfies the \<^verbatim>\<open>ON\<close> condition, and once with \<^verbatim>\<open>NULL\<close>s when there is none.
\<close>

definition left_join :: "'a list \<Rightarrow> 'b list \<Rightarrow> ('a \<Rightarrow> 'b \<Rightarrow> bool) \<Rightarrow> ('a \<times> 'b option) list" where
  "left_join xs ys on =
     concat (map (\<lambda>x. case filter (on x) ys of
                         [] \<Rightarrow> [(x, None)]
                       | ms \<Rightarrow> map (\<lambda>y. (x, Some y)) ms) xs)"

text \<open>Lines 128-130: \<^verbatim>\<open>SELECT idea_id, COUNT(*) AS cnt FROM votes GROUP BY idea_id\<close>.\<close>

definition vote_counts :: "vote list \<Rightarrow> (int \<times> nat) list" where
  "vote_counts vs =
     map (\<lambda>k. (k, length (filter (\<lambda>v. votes_idea_id v = k) vs))) (remdups (map votes_idea_id vs))"

text \<open>Lines 133-135: \<^verbatim>\<open>SELECT idea_id, 1 AS myvote FROM votes WHERE user_id = ?\<close>.\<close>

definition my_votes :: "string \<Rightarrow> vote list \<Rightarrow> (int \<times> nat) list" where
  "my_votes user_id vs = map (\<lambda>v. (votes_idea_id v, 1)) (filter (\<lambda>v. votes_user_id v = user_id) vs)"

text \<open>
  A row of the result set: \<^verbatim>\<open>id\<close>, \<^verbatim>\<open>content\<close>, \<^verbatim>\<open>votes\<close>, \<^verbatim>\<open>created_at\<close>, \<^verbatim>\<open>i_voted\<close>.
\<close>

type_synonym sqlrow = "int \<times> pystr \<times> nat \<times> timestamp \<times> nat"

text \<open>
  Lines 121-125, the select list: \<^verbatim>\<open>COALESCE(v.cnt, 0)\<close> and
  \<^verbatim>\<open>CASE WHEN my.myvote IS NULL THEN 0 ELSE 1 END\<close>.
\<close>

definition select_list :: "(idea \<times> (int \<times> nat) option) \<times> (int \<times> nat) option \<Rightarrow> sqlrow" where
  "select_list j =
     (case j of ((i, v), my) \<Rightarrow>
        (ideas_id i, ideas_content i,
         (case v of None \<Rightarrow> 0 | Some (_, cnt) \<Rightarrow> cnt),
         ideas_created_at i,
         (case my of None \<Rightarrow> 0 | Some _ \<Rightarrow> 1)))"

text \<open>
  Line 138: \<^verbatim>\<open>ORDER BY votes DESC, datetime(i.created_at) ASC, i.id ASC\<close>. The
  identifier \<^verbatim>\<open>votes\<close> is the alias of the third output column, which SQLite prefers
  to a table column of the same name. \<open>order_le a b\<close>: row \<open>a\<close> may stand before \<open>b\<close>.
\<close>

definition order_le :: "sqlrow \<Rightarrow> sqlrow \<Rightarrow> bool" where
  "order_le a b =
     (case a of (ida, _, va, ta, _) \<Rightarrow> case b of (idb, _, vb, tb, _) \<Rightarrow>
        vb < va \<or> (va = vb \<and> (ta < tb \<or> (ta = tb \<and> ida \<le> idb))))"

fun insert_row :: "sqlrow \<Rightarrow> sqlrow list \<Rightarrow> sqlrow list" where
  "insert_row r [] = [r]"
| "insert_row r (s # rs) = (if order_le r s then r # s # rs else s # insert_row r rs)"

fun order_by :: "sqlrow list \<Rightarrow> sqlrow list" where
  "order_by [] = []"
| "order_by (r # rs) = insert_row r (order_by rs)"

definition select_ideas :: "string \<Rightarrow> string \<Rightarrow> conn \<Rightarrow> sqlrow list" where
  "select_ideas user_id category c =
     order_by
       (map select_list
          (filter (\<lambda>((i, v), my). ideas_category i = category)
             (left_join
                (left_join (ideas c) (vote_counts (votes c)) (\<lambda>i v. fst v = ideas_id i))
                (my_votes user_id (votes c))
                (\<lambda>(i, v) my. fst my = ideas_id i))))"

text \<open>Lines 143-146: each row becomes a dictionary.\<close>

record row =
  row_id :: int
  row_content :: pystr
  row_votes :: nat
  row_created_at :: timestamp
  row_i_voted :: bool

definition row_of :: "sqlrow \<Rightarrow> row" where
  "row_of r =
     (case r of (i, content, v, t, mine) \<Rightarrow>
        \<lparr>row_id = i, row_content = content, row_votes = (if v \<noteq> 0 then v else 0),
         row_created_at = t, row_i_voted = (mine \<noteq> 0)\<rparr>)"

definition fetch_ideas :: "string \<Rightarrow> string \<Rightarrow> conn \<Rightarrow> row list" where
  "fetch_ideas category user_id c = map row_of (select_ideas user_id category c)"

subsection \<open>Sequences of calls\<close>

text \<open>
  The presentation layer (\<^verbatim>\<open>render_category\<close>, lines 163-218) calls \<^verbatim>\<open>add_idea\<close>,
  \<^verbatim>\<open>toggle_vote\<close> and \<^verbatim>\<open>delete_idea\<close> one after the other on the one connection; the
  two reading functions leave it as it is. A call that raises ends the run.
\<close>

datatype call =
    AddIdea string "pystr option" timestamp
  | ToggleVote int string timestamp
  | DeleteIdea int

fun step :: "call \<Rightarrow> conn \<Rightarrow> sqlite_error + conn" where
  "step (AddIdea category content now) c = map_sum id snd (add_idea category content now c)"
| "step (ToggleVote idea_id user_id now) c = map_sum id snd (toggle_vote idea_id user_id now c)"
| "step (DeleteIdea idea_id) c = map_sum id snd (delete_idea idea_id c)"

fun run :: "call list \<Rightarrow> conn \<Rightarrow> sqlite_error + conn" where
  "run [] c = Inr c"
| "run (x # xs) c = (case step x c of Inl e \<Rightarrow> Inl e | Inr c' \<Rightarrow> run xs c')"

text \<open>The states of the program: those that calls reach from the new database.\<close>

inductive reachable :: "conn \<Rightarrow> bool" where
  fresh: "reachable get_conn"
| call: "reachable c \<Longrightarrow> step x c = Inr c' \<Longrightarrow> reachable c'"

subsection \<open>Notions used in the statements\<close>

text \<open>The pair that \<^verbatim>\<open>UNIQUE(idea_id, user_id)\<close> is about.\<close>

definition vote_key :: "vote \<Rightarrow> int \<times> string" where
  "vote_key v = (votes_idea_id v, votes_user_id v)"

definition store_inv :: "conn \<Rightarrow> bool" where
  "store_inv c \<longleftrightarrow>
     \<not> foreign_keys c \<and> distinct (map vote_key (votes c)) \<and>
     (\<forall>i \<in> set (ideas c). ideas_votes i = 0)"

text \<open>The new database after \<^verbatim>\<open>toggle_vote(1, "s")\<close> at time 5.\<close>

definition voted_once :: conn where
  "voted_once =
     \<lparr>ideas = [],
      votes = [\<lparr>votes_id = 1, votes_idea_id = 1, votes_user_id = ''s'', votes_created_at = 5\<rparr>],
      ideas_seq = 0, votes_seq = 1, foreign_keys = False\<rparr>"

text \<open>
  The order of the listing, read off the dictionaries that \<^verbatim>\<open>fetch_ideas\<close> returns:
  more votes first, then the earlier \<^verbatim>\<open>created_at\<close>, then the smaller \<^verbatim>\<open>id\<close>.
\<close>

definition ranked_before :: "row \<Rightarrow> row \<Rightarrow> bool" where
  "ranked_before a b \<longleftrightarrow>
     row_votes b < row_votes a \<or>
     (row_votes a = row_votes b \<and>
        (row_created_at a < row_created_at b \<or>
         (row_created_at a = row_created_at b \<and> row_id a \<le> row_id b)))"

subsection \<open>Example boards\<close>

text \<open>The text \<^verbatim>\<open>pizza\<close> as code points.\<close>

definition pizza :: pystr where
  "pizza = [112, 105, 122, 122, 97]"

text \<open>
  Three ideas \<^verbatim>\<open>A\<close>, \<^verbatim>\<open>B\<close>, \<^verbatim>\<open>C\<close> added at times 100, 200 and 300; three sessions vote
  for \<^verbatim>\<open>A\<close>, three for \<^verbatim>\<open>B\<close>, five for \<^verbatim>\<open>C\<close>.
\<close>

definition abc_calls :: "call list" where
  "abc_calls =
     [AddIdea ''food'' (Some [65]) 100, AddIdea ''food'' (Some [66]) 200,
      AddIdea ''food'' (Some [67]) 300,
      ToggleVote 1 ''u1'' 301, ToggleVote 1 ''u2'' 302, ToggleVote 1 ''u3'' 303,
      ToggleVote 2 ''u1'' 304, ToggleVote 2 ''u2'' 305, ToggleVote 2 ''u3'' 306,
      ToggleVote 3 ''u1'' 307, ToggleVote 3 ''u2'' 308, ToggleVote 3 ''u3'' 309,
      ToggleVote 3 ''u4'' 310, ToggleVote 3 ''u5'' 311]"

definition abc_board :: conn where
  "abc_board =
     \<lparr>ideas =
        [\<lparr>ideas_id = 1, ideas_category = ''food'', ideas_content = [65], ideas_votes = 0,
          ideas_created_at = 100\<rparr>,
         \<lparr>ideas_id = 2, ideas_category = ''food'', ideas_content = [66], ideas_votes = 0,
          ideas_created_at = 200\<rparr>,
         \<lparr>ideas_id = 3, ideas_category = ''food'', ideas_content = [67], ideas_votes = 0,
          ideas_created_at = 300\<rparr>],
      votes =
        [\<lparr>votes_id = 1, votes_idea_id = 1, votes_user_id = ''u1'', votes_created_at = 301\<rparr>,
         \<lparr>votes_id = 2, votes_idea_id = 1, votes_user_id = ''u2'', votes_created_at = 302\<rparr>,
         \<lparr>votes_id = 3, votes_idea_id = 1, votes_user_id = ''u3'', votes_created_at = 303\<rparr>,
         \<lparr>votes_id = 4, votes_idea_id = 2, votes_user_id = ''u1'', votes_created_at = 304\<rparr>,
         \<lparr>votes_id = 5, votes_idea_id = 2, votes_user_id = ''u2'', votes_created_at = 305\<rparr>,
         \<lparr>votes_id = 6, votes_idea_id = 2, votes_user_id = ''u3'', votes_created_at = 306\<rparr>,
         \<lparr>votes_id = 7, votes_idea_id = 3, votes_user_id = ''u1'', votes_created_at = 307\<rparr>,
         \<lparr>votes_id = 8, votes_idea_id = 3, votes_user_id = ''u2'', votes_created_at = 308\<rparr>,
         \<lparr>votes_id = 9, votes_idea_id = 3, votes_user_id = ''u3'', votes_created_at = 309\<rparr>,
         \<lparr>votes_id = 10, votes_idea_id = 3, votes_user_id = ''u4'', votes_created_at = 310\<rparr>,
         \<lparr>votes_id = 11, votes_idea_id = 3, votes_user_id = ''u5'', votes_created_at = 311\<rparr>],
      ideas_seq = 3, votes_seq = 11, foreign_keys = False\<rparr>"

text \<open>The three dictionaries that session \<^verbatim>\<open>u4\<close> is shown for that board.\<close>

definition row_A :: row where
  "row_A = \<lparr>row_id = 1, row_content = [65], row_votes = 3, row_created_at = 100,
            row_i_voted = False\<rparr>"

definition row_B :: row where
  "row_B = \<lparr>row_id = 2, row_content = [66], row_votes = 3, row_created_at = 200,
            row_i_voted = False\<rparr>"

definition row_C :: row where
  "row_C = \<lparr>row_id = 3, row_content = [67], row_votes = 5, row_created_at = 300,
            row_i_voted = True\<rparr>"

text \<open>
  The new database after \<^verbatim>\<open>add_idea("food", "pizza")\<close> at time 7 and
  \<^verbatim>\<open>delete_idea(1)\<close>: both tables are empty and id 1 is used up.
\<close>

definition deleted_board :: conn where
  "deleted_board =
     \<lparr>ideas = [], votes = [], ideas_seq = 1, votes_seq = 0, foreign_keys = False\<rparr>"

text \<open>\<open>voted_once\<close> after \<^verbatim>\<open>add_idea("food", "pizza")\<close> at time 7.\<close>

definition voted_pizza :: conn where
  "voted_pizza =
     \<lparr>ideas = [\<lparr>ideas_id = 1, ideas_category = ''food'', ideas_content = pizza,
                ideas_votes = 0, ideas_created_at = 7\<rparr>],
      votes = [\<lparr>votes_id = 1, votes_idea_id = 1, votes_user_id = ''s'', votes_created_at = 5\<rparr>],
      ideas_seq = 1, votes_seq = 1, foreign_keys = False\<rparr>"

section \<open>Votes: lookup, toggle, uniqueness\<close>

lemma has_voted_iff: "has_voted i u c \<longleftrightarrow> (\<exists>v \<in> set (votes c). vote_matches i u v)"
  by (auto simp: has_voted_def find_None_iff)

lemma vote_matches_key: "vote_matches i u v \<longleftrightarrow> vote_key v = (i, u)"
  by (auto simp: vote_matches_def vote_key_def)

lemma select_vote_id_None: "select_vote_id i u c = None \<longleftrightarrow> \<not> has_voted i u c"
  by (simp add: select_vote_id_def has_voted_def)

lemma list_ex_has_voted: "list_ex (vote_matches i u) (votes c) \<longleftrightarrow> has_voted i u c"
  by (simp add: has_voted_iff list_ex_iff)

text \<open>Without a vote, and with foreign keys off, the toggle appends a row.\<close>

lemma toggle_appends:
  assumes "\<not> foreign_keys c" "\<not> has_voted i u c"
  shows "toggle_vote i u now c =
           Inr (PyNone, c\<lparr>votes := votes c @
                  [\<lparr>votes_id = next_rowid (votes_seq c) (map votes_id (votes c)),
                    votes_idea_id = i, votes_user_id = u, votes_created_at = now\<rparr>],
                votes_seq := next_rowid (votes_seq c) (map votes_id (votes c))\<rparr>)"
  using assms
  by (simp add: toggle_vote_def select_vote_id_None[THEN iffD2] try_insert_vote_def
      insert_vote_def list_ex_has_voted Let_def)

text \<open>With a vote, the toggle deletes by the row id of the first match.\<close>

lemma toggle_removes:
  assumes "has_voted i u c"
  shows "\<exists>v \<in> set (votes c). vote_matches i u v \<and>
           toggle_vote i u now c =
             Inr (PyNone, c\<lparr>votes := filter (\<lambda>w. votes_id w \<noteq> votes_id v) (votes c)\<rparr>)"
proof -
  from assms obtain v where f: "find (vote_matches i u) (votes c) = Some v"
    by (auto simp: has_voted_def)
  then have "v \<in> set (votes c)" "vote_matches i u v"
    by (auto simp: find_Some_iff)
  moreover have "toggle_vote i u now c =
      Inr (PyNone, c\<lparr>votes := filter (\<lambda>w. votes_id w \<noteq> votes_id v) (votes c)\<rparr>)"
    using f by (simp add: toggle_vote_def select_vote_id_def delete_vote_def)
  ultimately show ?thesis by blast
qed

lemma toggle_never_raises: "\<exists>c'. toggle_vote i u now c = Inr (PyNone, c')"
  by (auto simp: toggle_vote_def try_insert_vote_def delete_vote_def insert_vote_def Let_def
      split: option.splits sum.splits sqlite_error.splits)

lemma flip_under_inv:
  assumes "store_inv c"
  shows "\<exists>c'. toggle_vote i u now c = Inr (PyNone, c') \<and> store_inv c' \<and>
           has_voted i u c' = (\<not> has_voted i u c) \<and> ideas c' = ideas c"
proof (cases "has_voted i u c")
  case False
  with assms show ?thesis
    by (auto simp: toggle_appends store_inv_def has_voted_iff vote_matches_def vote_key_def)
next
  case True
  from toggle_removes[OF True, of now] obtain v where
    v: "v \<in> set (votes c)" "vote_matches i u v" and
    t: "toggle_vote i u now c =
          Inr (PyNone, c\<lparr>votes := filter (\<lambda>w. votes_id w \<noteq> votes_id v) (votes c)\<rparr>)"
    by blast
  have d: "distinct (map vote_key (votes c))" using assms by (simp add: store_inv_def)
  have "\<not> vote_matches i u w" if "w \<in> set (votes c)" "votes_id w \<noteq> votes_id v" for w
  proof
    assume "vote_matches i u w"
    then have "vote_key w = vote_key v" using v by (simp add: vote_matches_key)
    then have "w = v" using d that(1) v(1) by (meson distinct_map inj_onD)
    with that(2) show False by simp
  qed
  then have "\<not> has_voted i u (c\<lparr>votes := filter (\<lambda>w. votes_id w \<noteq> votes_id v) (votes c)\<rparr>)"
    by (auto simp: has_voted_iff)
  with True t assms show ?thesis
    by (auto simp: store_inv_def distinct_map_filter)
qed

text \<open>
  The same flip in any state without duplicate pairs, whatever the foreign-key setting,
  provided that under enforcement the idea exists.
\<close>

lemma toggle_flips_where_idea_exists:
  assumes "distinct (map vote_key (votes c))"
    and "foreign_keys c \<longrightarrow> x \<in> ideas_id ` set (ideas c)"
  shows "\<exists>c'. toggle_vote x u now c = Inr (PyNone, c') \<and>
           distinct (map vote_key (votes c')) \<and> ideas c' = ideas c \<and>
           foreign_keys c' = foreign_keys c \<and>
           has_voted x u c' = (\<not> has_voted x u c)"
proof (cases "has_voted x u c")
  case False
  from assms(2) have "\<not> (foreign_keys c \<and> \<not> list_ex (\<lambda>i. ideas_id i = x) (ideas c))"
    by (auto simp: list_ex_iff)
  with False have "toggle_vote x u now c =
           Inr (PyNone, c\<lparr>votes := votes c @
                  [\<lparr>votes_id = next_rowid (votes_seq c) (map votes_id (votes c)),
                    votes_idea_id = x, votes_user_id = u, votes_created_at = now\<rparr>],
                votes_seq := next_rowid (votes_seq c) (map votes_id (votes c))\<rparr>)"
    by (auto simp: toggle_vote_def select_vote_id_None[THEN iffD2] try_insert_vote_def
        insert_vote_def list_ex_has_voted Let_def)
  with False assms(1) show ?thesis
    by (auto simp: has_voted_iff vote_matches_def vote_key_def)
next
  case True
  from toggle_removes[OF True, of now] obtain v where
    v: "v \<in> set (votes c)" "vote_matches x u v" and
    t: "toggle_vote x u now c =
          Inr (PyNone, c\<lparr>votes := filter (\<lambda>w. votes_id w \<noteq> votes_id v) (votes c)\<rparr>)"
    by blast
  have "\<not> vote_matches x u w" if "w \<in> set (votes c)" "votes_id w \<noteq> votes_id v" for w
  proof
    assume "vote_matches x u w"
    then have "vote_key w = vote_key v" using v by (simp add: vote_matches_key)
    then have "w = v" using assms(1) that(1) v(1) by (meson distinct_map inj_onD)
    with that(2) show False by simp
  qed
  then have "\<not> has_voted x u (c\<lparr>votes := filter (\<lambda>w. votes_id w \<noteq> votes_id v) (votes c)\<rparr>)"
    by (auto simp: has_voted_iff)
  with True t assms(1) show ?thesis
    by (auto simp: distinct_map_filter)
qed

lemma add_idea_inv:
  assumes "store_inv c" "add_idea category content now c = Inr (ok, c')"
  shows "store_inv c'"
  using assms
  by (auto simp: add_idea_def insert_idea_def store_inv_def Let_def split: if_splits)

lemma delete_idea_inv:
  assumes "store_inv c" "delete_idea i c = Inr (r, c')"
  shows "store_inv c'"
  using assms
  by (auto simp: delete_idea_def delete_from_ideas_def store_inv_def)

lemma step_inv:
  assumes "store_inv c" "step x c = Inr c'"
  shows "store_inv c'"
proof (cases x)
  case (AddIdea category content now)
  with assms show ?thesis
    by (cases "add_idea category content now c") (auto dest: add_idea_inv)
next
  case (ToggleVote i u now)
  with assms flip_under_inv[OF assms(1), of i u now] show ?thesis by auto
next
  case (DeleteIdea i)
  with assms show ?thesis
    by (cases "delete_idea i c") (auto dest: delete_idea_inv)
qed

lemma reachable_inv: "reachable c \<Longrightarrow> store_inv c"
proof (induction rule: reachable.induct)
  case fresh
  show ?case by (simp add: store_inv_def get_conn_def)
next
  case (call c x c')
  then show ?case by (blast intro: step_inv)
qed

lemma reachable_run: "reachable c \<Longrightarrow> run xs c = Inr c' \<Longrightarrow> reachable c'"
proof (induction xs arbitrary: c)
  case Nil
  then show ?case by simp
next
  case (Cons x xs)
  then show ?case by (auto split: sum.splits intro: reachable.call)
qed

lemma toggle_fresh: "toggle_vote 1 ''s'' 5 get_conn = Inr (PyNone, voted_once)"
  by (simp add: toggle_vote_def get_conn_def select_vote_id_def try_insert_vote_def
      insert_vote_def next_rowid_def voted_once_def)

lemma reachable_voted_once: "reachable voted_once"
  by (rule reachable.call[OF reachable.fresh, of "ToggleVote 1 ''s'' 5"]) (simp add: toggle_fresh)

lemma has_voted_voted_once: "has_voted 1 ''s'' voted_once"
  by (simp add: has_voted_def voted_once_def vote_matches_def)

text \<open>
  C2. From a state of the program in which session \<open>s\<close> holds no vote on \<open>x\<close>, any number
  of calls \<^verbatim>\<open>toggle_vote(x, s)\<close> in a row all return, and afterwards \<^verbatim>\<open>has_voted(x, s)\<close>
  is true exactly when the number of calls is odd. \<open>x\<close> is any integer, whether or not an
  idea has that id.
\<close>

theorem toggle_vote_parity:
  assumes "reachable c" and "\<not> has_voted x s c"
  shows "\<exists>c'. run (map (ToggleVote x s) ts) c = Inr c' \<and> has_voted x s c' = odd (length ts)"
proof -
  have "\<exists>c'. run (map (ToggleVote x s) ts) c = Inr c' \<and>
          has_voted x s c' = (has_voted x s c \<noteq> odd (length ts))"
    if "store_inv c" for c
    using that
  proof (induction ts arbitrary: c)
    case Nil
    then show ?case by simp
  next
    case (Cons t ts)
    from flip_under_inv[OF Cons.prems, of x s t] obtain c1 where
      c1: "toggle_vote x s t c = Inr (PyNone, c1)" "store_inv c1"
          "has_voted x s c1 = (\<not> has_voted x s c)"
      by blast
    from Cons.IH[OF c1(2)] obtain c' where
      "run (map (ToggleVote x s) ts) c1 = Inr c'"
      "has_voted x s c' = (has_voted x s c1 \<noteq> odd (length ts))"
      by blast
    with c1 show ?case by auto
  qed
  from this[OF reachable_inv[OF assms(1)]] assms(2) show ?thesis by simp
qed

theorem toggle_vote_parity_witness:
  "reachable get_conn \<and> \<not> has_voted 1 ''s'' get_conn \<and>
   (\<exists>c'. run (map (ToggleVote 1 ''s'') [10, 20, 30]) get_conn = Inr c' \<and> has_voted 1 ''s'' c')"
proof -
  have r: "reachable get_conn" by (rule reachable.fresh)
  have n: "\<not> has_voted 1 ''s'' get_conn" by (simp add: has_voted_def get_conn_def)
  from toggle_vote_parity[OF r n, of "[10, 20, 30]"] r n show ?thesis by simp
qed

text \<open>
  C4. In every state of the program no two rows of \<^verbatim>\<open>votes\<close> have the same pair
  (\<^verbatim>\<open>idea_id\<close>, \<^verbatim>\<open>user_id\<close>); \<^verbatim>\<open>toggle_vote\<close> returns for every input; and an \<^verbatim>\<open>INSERT\<close>
  of a pair that is already there fails with \<^verbatim>\<open>IntegrityError\<close>, which the
  \<^verbatim>\<open>try\<close>/\<^verbatim>\<open>except\<close> of lines 105-109 turns into "nothing changed".
\<close>

theorem votes_unique:
  assumes "reachable c"
  shows "distinct (map vote_key (votes c)) \<and>
         (\<exists>c'. toggle_vote i u now c = Inr (PyNone, c')) \<and>
         (has_voted i u c \<longrightarrow>
            insert_vote i u now c = Inl IntegrityError \<and> try_insert_vote i u now c = Inr c)"
proof -
  have "distinct (map vote_key (votes c))"
    using reachable_inv[OF assms] by (simp add: store_inv_def)
  moreover have "\<exists>c'. toggle_vote i u now c = Inr (PyNone, c')"
    by (rule toggle_never_raises)
  moreover have "insert_vote i u now c = Inl IntegrityError \<and> try_insert_vote i u now c = Inr c"
    if "has_voted i u c"
    using that by (simp add: try_insert_vote_def insert_vote_def list_ex_has_voted)
  ultimately show ?thesis by blast
qed

theorem votes_unique_witness:
  "reachable voted_once \<and> has_voted 1 ''s'' voted_once \<and>
   distinct (map vote_key (votes voted_once)) \<and>
   insert_vote 1 ''s'' 9 voted_once = Inl IntegrityError \<and>
   try_insert_vote 1 ''s'' 9 voted_once = Inr voted_once"
  using votes_unique[OF reachable_voted_once, of 1 "''s''" 9] reachable_voted_once
    has_voted_voted_once
  by simp

text \<open>
  C7, as the claim states it, fails: on the new database \<^verbatim>\<open>toggle_vote(1, "s")\<close> creates
  the vote, and what it returns is \<^verbatim>\<open>None\<close>, not \<^verbatim>\<open>True\<close>.
\<close>

theorem toggle_vote_returns_none_counterexample:
  "toggle_vote 1 ''s'' 5 get_conn = Inr (PyNone, voted_once) \<and>
   \<not> has_voted 1 ''s'' get_conn \<and> has_voted 1 ''s'' voted_once \<and>
   toggle_vote 1 ''s'' 5 get_conn \<noteq> Inr (PyBool True, voted_once)"
  by (simp add: toggle_fresh has_voted_voted_once) (simp add: has_voted_def get_conn_def)

text \<open>
  C7, amended. In every state of the program \<^verbatim>\<open>toggle_vote\<close> returns \<^verbatim>\<open>None\<close> whichever
  transition it makes, and the new state shows in \<^verbatim>\<open>has_voted\<close>, which after the call
  is the opposite of what it was before.
\<close>

theorem toggle_vote_flips:
  assumes "reachable c"
  shows "\<exists>c'. toggle_vote i u now c = Inr (PyNone, c') \<and>
           has_voted i u c' = (\<not> has_voted i u c)"
  using flip_under_inv[OF reachable_inv[OF assms], of i u now] by blast

theorem toggle_vote_flips_witness:
  "reachable voted_once \<and>
   (\<exists>c'. toggle_vote 1 ''s'' 7 voted_once = Inr (PyNone, c') \<and> \<not> has_voted 1 ''s'' c')"
  using toggle_vote_flips[OF reachable_voted_once, of 1 "''s''" 7] reachable_voted_once
    has_voted_voted_once
  by simp

section \<open>The ranked listing\<close>

subsection \<open>ORDER BY\<close>

lemma order_le_total: "order_le a b \<or> order_le b a"
  by (auto simp: order_le_def split: prod.splits)

lemma order_le_trans: "order_le a b \<Longrightarrow> order_le b c \<Longrightarrow> order_le a c"
  by (auto simp: order_le_def split: prod.splits)

lemma set_insert_row: "set (insert_row r rs) = insert r (set rs)"
  by (induction rs) auto

lemma sorted_insert_row: "sorted_wrt order_le rs \<Longrightarrow> sorted_wrt order_le (insert_row r rs)"
proof (induction rs)
  case Nil
  then show ?case by simp
next
  case (Cons s rs)
  show ?case
  proof (cases "order_le r s")
    case True
    with Cons.prems show ?thesis by (auto intro: order_le_trans)
  next
    case False
    then have "order_le s r" using order_le_total by blast
    with False Cons show ?thesis by (auto simp: set_insert_row)
  qed
qed

lemma set_order_by: "set (order_by rs) = set rs"
  by (induction rs) (auto simp: set_insert_row)

lemma sorted_order_by: "sorted_wrt order_le (order_by rs)"
  by (induction rs) (auto intro: sorted_insert_row)

lemma ranked_before_row_of: "ranked_before (row_of a) (row_of b) = order_le a b"
  by (auto simp: ranked_before_def row_of_def order_le_def split: prod.splits)

lemma fetch_ideas_sorted: "sorted_wrt ranked_before (fetch_ideas category user_id c)"
  using sorted_order_by
  by (simp add: fetch_ideas_def select_ideas_def sorted_wrt_map ranked_before_row_of)


subsection \<open>The joins\<close>

lemma set_join_one:
  "set (case filter p ys of [] \<Rightarrow> [(w, None)] | ms \<Rightarrow> map (\<lambda>z. (w, Some z)) ms) =
     (if \<exists>z \<in> set ys. p z then (\<lambda>z. (w, Some z)) ` {z \<in> set ys. p z} else {(w, None)})"
proof (cases "filter p ys")
  case Nil
  then show ?thesis by (auto simp: filter_empty_conv)
next
  case (Cons m ms)
  then have s: "set (m # ms) = {z \<in> set ys. p z}" by (metis set_filter)
  then have e: "\<exists>z \<in> set ys. p z" by auto
  have "set (map (\<lambda>z. (w, Some z)) (m # ms)) = (\<lambda>z. (w, Some z)) ` {z \<in> set ys. p z}"
    unfolding set_map s ..
  with Cons e show ?thesis by (simp del: set_map list.map)
qed

lemma in_left_join:
  "(x, y) \<in> set (left_join xs ys on) \<longleftrightarrow>
     x \<in> set xs \<and>
     (case y of None \<Rightarrow> \<not> (\<exists>z \<in> set ys. on x z) | Some z \<Rightarrow> z \<in> set ys \<and> on x z)"
  unfolding left_join_def set_concat set_map
  by (auto simp: set_join_one split: option.splits if_splits)

lemma in_vote_counts:
  "(k, n) \<in> set (vote_counts vs) \<longleftrightarrow>
     k \<in> votes_idea_id ` set vs \<and> n = length (filter (\<lambda>v. votes_idea_id v = k) vs)"
  by (auto simp: vote_counts_def)

lemma in_my_votes:
  "(k, n) \<in> set (my_votes u vs) \<longleftrightarrow> n = 1 \<and> (\<exists>v \<in> set vs. vote_matches k u v)"
  by (auto simp: my_votes_def vote_matches_def)

lemma in_select_ideas:
  assumes "r \<in> set (select_ideas u category c)"
  shows "\<exists>i \<in> set (ideas c). ideas_category i = category \<and>
           r = (ideas_id i, ideas_content i,
                length (filter (\<lambda>v. votes_idea_id v = ideas_id i) (votes c)),
                ideas_created_at i,
                (if has_voted (ideas_id i) u c then 1 else 0))"
proof -
  from assms obtain i v my where
    j: "((i, v), my) \<in> set (left_join
                (left_join (ideas c) (vote_counts (votes c)) (\<lambda>i v. fst v = ideas_id i))
                (my_votes u (votes c))
                (\<lambda>(i, v) my. fst my = ideas_id i))"
    and cat: "ideas_category i = category" and r: "r = select_list ((i, v), my)"
    by (auto simp: select_ideas_def set_order_by)
  from j have iv: "(i, v) \<in> set (left_join (ideas c) (vote_counts (votes c)) (\<lambda>i v. fst v = ideas_id i))"
    and my: "(case my of None \<Rightarrow> \<not> (\<exists>z \<in> set (my_votes u (votes c)). fst z = ideas_id i)
             | Some z \<Rightarrow> z \<in> set (my_votes u (votes c)) \<and> fst z = ideas_id i)"
    by (auto simp: in_left_join)
  from iv have i: "i \<in> set (ideas c)"
    and v: "(case v of None \<Rightarrow> \<not> (\<exists>z \<in> set (vote_counts (votes c)). fst z = ideas_id i)
             | Some z \<Rightarrow> z \<in> set (vote_counts (votes c)) \<and> fst z = ideas_id i)"
    by (auto simp: in_left_join)
  have cnt: "(case v of None \<Rightarrow> 0 | Some (_, n) \<Rightarrow> n) =
          length (filter (\<lambda>v. votes_idea_id v = ideas_id i) (votes c))"
  proof (cases v)
    case None
    have "\<forall>w \<in> set (votes c). votes_idea_id w \<noteq> ideas_id i"
    proof
      fix w assume w: "w \<in> set (votes c)"
      show "votes_idea_id w \<noteq> ideas_id i"
      proof
        assume "votes_idea_id w = ideas_id i"
        with w have "(ideas_id i, length (filter (\<lambda>v. votes_idea_id v = ideas_id i) (votes c)))
            \<in> set (vote_counts (votes c))"
          by (simp add: in_vote_counts) (metis imageI)
        with v None show False by force
      qed
    qed
    then have "filter (\<lambda>v. votes_idea_id v = ideas_id i) (votes c) = []"
      by (simp add: filter_empty_conv)
    with None show ?thesis by simp
  next
    case (Some z)
    with v show ?thesis by (cases z) (auto simp: in_vote_counts)
  qed
  have mine: "(case my of None \<Rightarrow> 0 | Some _ \<Rightarrow> 1) = (if has_voted (ideas_id i) u c then 1 else (0::nat))"
  proof (cases my)
    case None
    have "\<not> has_voted (ideas_id i) u c"
    proof
      assume "has_voted (ideas_id i) u c"
      then have "(ideas_id i, 1) \<in> set (my_votes u (votes c))"
        by (simp add: in_my_votes has_voted_iff)
      with my None show False by force
    qed
    with None show ?thesis by simp
  next
    case (Some z)
    with my have "has_voted (ideas_id i) u c"
      by (cases z) (auto simp: in_my_votes has_voted_iff)
    with Some show ?thesis by simp
  qed
  from r cnt mine have "r = (ideas_id i, ideas_content i,
                length (filter (\<lambda>v. votes_idea_id v = ideas_id i) (votes c)),
                ideas_created_at i,
                (if has_voted (ideas_id i) u c then 1 else 0))"
    by (simp add: select_list_def)
  with i cat show ?thesis by blast
qed

lemma fetch_ideas_rows:
  assumes "r \<in> set (fetch_ideas category u c)"
  shows "row_votes r = length (filter (\<lambda>v. votes_idea_id v = row_id r) (votes c)) \<and>
         row_i_voted r = has_voted (row_id r) u c \<and>
         (\<exists>i \<in> set (ideas c). ideas_category i = category \<and> ideas_id i = row_id r \<and>
             ideas_content i = row_content r \<and> ideas_created_at i = row_created_at r)"
proof -
  from assms obtain s where s: "s \<in> set (select_ideas u category c)" and r: "r = row_of s"
    by (auto simp: fetch_ideas_def)
  from in_select_ideas[OF s] r show ?thesis
    by (auto simp: row_of_def split: if_splits)
qed

lemma left_join_map:
  "left_join (map g xs) ys on = map (\<lambda>(x, y). (g x, y)) (left_join xs ys (\<lambda>x. on (g x)))"
  by (induction xs) (auto simp: left_join_def split: list.splits)

lemma select_ideas_ignores_counter:
  "select_ideas u category (c\<lparr>ideas := map (ideas_votes_update f) (ideas c)\<rparr>) =
   select_ideas u category c"
proof -
  let ?g = "ideas_votes_update f"
  let ?G1 = "\<lambda>(x, y). (?g x, y)"
  let ?G2 = "\<lambda>(x, y). (?G1 x, y)"
  let ?on1 = "\<lambda>i v. fst v = ideas_id i"
  let ?on2 = "\<lambda>(i, v) my. fst my = ideas_id i"
  let ?P = "\<lambda>((i, v), my). ideas_category i = category"
  let ?vc = "vote_counts (votes c)"
  let ?my = "my_votes u (votes c)"
  have on1: "(\<lambda>x. ?on1 (?g x)) = ?on1" by (simp add: fun_eq_iff)
  have on2: "(\<lambda>x. ?on2 (?G1 x)) = ?on2" by (simp add: fun_eq_iff split: prod.splits)
  have P: "?P \<circ> ?G2 = ?P" by (simp add: fun_eq_iff split: prod.splits)
  have S: "select_list \<circ> ?G2 = select_list"
    by (simp add: fun_eq_iff select_list_def split: prod.splits)
  have "left_join (left_join (map ?g (ideas c)) ?vc ?on1) ?my ?on2 =
        map ?G2 (left_join (left_join (ideas c) ?vc ?on1) ?my ?on2)"
    by (simp only: left_join_map on1 on2)
  then have "map select_list (filter ?P (left_join (left_join (map ?g (ideas c)) ?vc ?on1) ?my ?on2)) =
        map select_list (filter ?P (left_join (left_join (ideas c) ?vc ?on1) ?my ?on2))"
    by (simp only: filter_map map_map P S)
  then show ?thesis by (simp add: select_ideas_def)
qed

lemma fetch_ideas_ignores_counter:
  "fetch_ideas category u (c\<lparr>ideas := map (ideas_votes_update f) (ideas c)\<rparr>) =
   fetch_ideas category u c"
  by (simp add: fetch_ideas_def select_ideas_ignores_counter)

lemma fold_max_ge: "s \<le> fold max ids (s::int)"
proof (induction ids arbitrary: s)
  case Nil
  show ?case by simp
next
  case (Cons a ids)
  have "s \<le> max a s" by simp
  also have "max a s \<le> fold max ids (max a s)" by (rule Cons.IH)
  finally show ?case by simp
qed

lemma fold_max_mem: "x \<in> set ids \<Longrightarrow> x \<le> fold max ids (s::int)"
proof (induction ids arbitrary: s)
  case Nil
  then show ?case by simp
next
  case (Cons a ids)
  show ?case
  proof (cases "x = a")
    case True
    have "max a s \<le> fold max ids (max a s)" by (rule fold_max_ge)
    with True show ?thesis by simp
  next
    case False
    with Cons show ?thesis by simp
  qed
qed

lemma next_rowid_fresh: "next_rowid seq ids \<notin> set ids"
  using fold_max_mem[of "next_rowid seq ids" ids seq] by (auto simp: next_rowid_def)

lemma step_keeps_counter:
  assumes "step x d = Inr d'" "i \<in> set (ideas d')"
  shows "i \<in> set (ideas d) \<or> ideas_votes i = 0"
proof (cases x)
  case (AddIdea category content now)
  with assms show ?thesis
    by (auto simp: add_idea_def insert_idea_def Let_def split: if_splits)
next
  case (ToggleVote k u now)
  with assms show ?thesis
    by (auto simp: toggle_vote_def try_insert_vote_def insert_vote_def delete_vote_def Let_def
        split: option.splits if_splits sum.splits sqlite_error.splits)
next
  case (DeleteIdea k)
  with assms show ?thesis
    by (auto simp: delete_idea_def delete_from_ideas_def)
qed

lemma fetch_ideas_complete:
  assumes "i \<in> set (ideas c)" "ideas_category i = category"
  shows "\<exists>r \<in> set (fetch_ideas category u c). row_id r = ideas_id i"
proof -
  let ?L1 = "left_join (ideas c) (vote_counts (votes c)) (\<lambda>i v. fst v = ideas_id i)"
  let ?L2 = "left_join ?L1 (my_votes u (votes c)) (\<lambda>(i, v) my. fst my = ideas_id i)"
  have ex: "\<exists>y. (x, y) \<in> set (left_join xs ys on)" if "x \<in> set xs" for x :: 'a and xs and ys :: "'b list" and on
  proof (cases "\<exists>z \<in> set ys. on x z")
    case True
    then obtain z where "z \<in> set ys" "on x z" by blast
    with that have "(x, Some z) \<in> set (left_join xs ys on)" by (simp add: in_left_join)
    then show ?thesis ..
  next
    case False
    with that have "(x, None) \<in> set (left_join xs ys on)" by (simp add: in_left_join)
    then show ?thesis ..
  qed
  from ex[OF assms(1)] obtain v where v: "(i, v) \<in> set ?L1" by blast
  from ex[OF v] obtain my where my: "((i, v), my) \<in> set ?L2" by blast
  with assms(2) have "select_list ((i, v), my) \<in> set (select_ideas u category c)"
    by (force simp: select_ideas_def set_order_by)
  then have "row_of (select_list ((i, v), my)) \<in> set (fetch_ideas category u c)"
    by (simp add: fetch_ideas_def)
  moreover have "row_id (row_of (select_list ((i, v), my))) = ideas_id i"
    by (simp add: row_of_def select_list_def)
  ultimately show ?thesis by blast
qed

lemma three_ranked:
  assumes s: "sorted_wrt ranked_before xs"
    and "set xs = {A, B, C}" "length xs = 3"
    and "row_votes A = 3" "row_votes B = 3" "row_votes C = 5"
    and "row_created_at A < row_created_at B"
  shows "xs = [C, A, B]"
proof -
  from \<open>length xs = 3\<close> obtain x y z where xs: "xs = [x, y, z]"
    by (auto simp: length_Suc_conv numeral_3_eq_3)
  have nAC: "\<not> ranked_before A C" and nBC: "\<not> ranked_before B C" and nBA: "\<not> ranked_before B A"
    using assms(4-7) by (auto simp: ranked_before_def)
  have d: "A \<noteq> B" "A \<noteq> C" "B \<noteq> C"
    using assms(4-7) by auto
  from s xs have r: "ranked_before x y" "ranked_before x z" "ranked_before y z" by auto
  from assms(2) xs have e: "{x, y, z} = {A, B, C}" by simp
  then have m: "x \<in> {A, B, C}" "y \<in> {A, B, C}" "z \<in> {A, B, C}"
    "A \<in> {x, y, z}" "B \<in> {x, y, z}" "C \<in> {x, y, z}" by auto
  with r nAC nBC nBA d have "x = C" by auto
  moreover from m r nAC nBC nBA d \<open>x = C\<close> have "y = A" by auto
  moreover from m r nAC nBC nBA d \<open>x = C\<close> \<open>y = A\<close> have "z = B" by auto
  ultimately show ?thesis using xs by simp
qed

subsection \<open>The example board\<close>

lemma run_abc: "run abc_calls get_conn = Inr abc_board"
  by (simp add: abc_calls_def get_conn_def abc_board_def add_idea_def insert_idea_def
      py_strip_def py_isspace_def next_rowid_def toggle_vote_def select_vote_id_def
      vote_matches_def try_insert_vote_def insert_vote_def Let_def)

lemma reachable_abc: "reachable abc_board"
  by (rule reachable_run[OF reachable.fresh run_abc])

lemma fetch_abc: "fetch_ideas ''food'' ''u4'' abc_board = [row_C, row_A, row_B]"
  by code_simp

text \<open>
  C3. Whatever the category, the session and the state, the list that \<^verbatim>\<open>fetch_ideas\<close>
  returns is in the order of the three-level key: of any two entries the one with more
  votes stands first, of two with equal votes the one created earlier, and of two created
  in the same second the one with the smaller id. In particular, when the listing consists
  of \<open>A\<close> and \<open>B\<close> with 3 votes each, \<open>A\<close> created before \<open>B\<close>, and \<open>C\<close> with 5 votes, it
  is \<open>[C, A, B]\<close>.
\<close>

theorem fetch_ideas_ranked:
  "sorted_wrt ranked_before (fetch_ideas category u c) \<and>
   (set (fetch_ideas category u c) = {A, B, C} \<and> length (fetch_ideas category u c) = 3 \<and>
    row_votes A = 3 \<and> row_votes B = 3 \<and> row_votes C = 5 \<and>
    row_created_at A < row_created_at B
    \<longrightarrow> fetch_ideas category u c = [C, A, B])"
  using three_ranked[OF fetch_ideas_sorted, of category u c A B C] fetch_ideas_sorted
  by blast

theorem fetch_ideas_ranked_witness:
  "set (fetch_ideas ''food'' ''u4'' abc_board) = {row_A, row_B, row_C} \<and>
   length (fetch_ideas ''food'' ''u4'' abc_board) = 3 \<and>
   row_votes row_A = 3 \<and> row_votes row_B = 3 \<and> row_votes row_C = 5 \<and>
   row_created_at row_A < row_created_at row_B \<and>
   fetch_ideas ''food'' ''u4'' abc_board = [row_C, row_A, row_B] \<and>
   sorted_wrt ranked_before (fetch_ideas ''food'' ''u4'' abc_board)"
proof -
  have h: "set (fetch_ideas ''food'' ''u4'' abc_board) = {row_A, row_B, row_C}"
    "length (fetch_ideas ''food'' ''u4'' abc_board) = 3"
    by (auto simp: fetch_abc)
  have v: "row_votes row_A = 3" "row_votes row_B = 3" "row_votes row_C = 5"
    "row_created_at row_A < row_created_at row_B"
    by (simp_all add: row_A_def row_B_def row_C_def)
  from fetch_ideas_ranked[of "''food''" "''u4''" abc_board row_A row_B row_C] h v
  show ?thesis by blast
qed

text \<open>
  C8. Every entry that \<^verbatim>\<open>fetch_ideas\<close> returns carries as \<^verbatim>\<open>votes\<close> the number of rows of
  table \<^verbatim>\<open>votes\<close> that reference the entry's id, and as \<^verbatim>\<open>i_voted\<close> whether a row for that
  id and the requesting session exists; overwriting the stored counter column of \<^verbatim>\<open>ideas\<close>
  with anything changes nothing in the listing.
\<close>

theorem fetch_ideas_live_count:
  "(\<forall>r \<in> set (fetch_ideas category u c).
      row_votes r = length (filter (\<lambda>v. votes_idea_id v = row_id r) (votes c)) \<and>
      row_i_voted r = (\<exists>v \<in> set (votes c). votes_idea_id v = row_id r \<and> votes_user_id v = u)) \<and>
   fetch_ideas category u (c\<lparr>ideas := map (ideas_votes_update f) (ideas c)\<rparr>) =
     fetch_ideas category u c"
proof -
  have "row_votes r = length (filter (\<lambda>v. votes_idea_id v = row_id r) (votes c)) \<and>
        row_i_voted r = (\<exists>v \<in> set (votes c). votes_idea_id v = row_id r \<and> votes_user_id v = u)"
    if "r \<in> set (fetch_ideas category u c)" for r
    using fetch_ideas_rows[OF that] by (simp add: has_voted_iff vote_matches_def)
  then show ?thesis by (simp add: fetch_ideas_ignores_counter)
qed

theorem fetch_ideas_live_count_witness:
  "row_C \<in> set (fetch_ideas ''food'' ''u4'' abc_board) \<and>
   row_votes row_C = 5 \<and>
   length (filter (\<lambda>v. votes_idea_id v = row_id row_C) (votes abc_board)) = 5 \<and>
   row_i_voted row_C \<and>
   (\<exists>v \<in> set (votes abc_board). votes_idea_id v = row_id row_C \<and> votes_user_id v = ''u4'')"
proof -
  have m: "row_C \<in> set (fetch_ideas ''food'' ''u4'' abc_board)"
    by (simp add: fetch_abc)
  have v: "row_votes row_C = 5" "row_i_voted row_C"
    by (simp_all add: row_C_def)
  from fetch_ideas_live_count[of "''food''" "''u4''" abc_board id] m
  have "row_votes row_C = length (filter (\<lambda>v. votes_idea_id v = row_id row_C) (votes abc_board))"
    and "row_i_voted row_C =
      (\<exists>v \<in> set (votes abc_board). votes_idea_id v = row_id row_C \<and> votes_user_id v = ''u4'')"
    by blast+
  with m v show ?thesis by simp
qed

text \<open>
  C10. In every state of the program the stored counter \<^verbatim>\<open>ideas.votes\<close> is 0 in every
  row; a call leaves every row of \<^verbatim>\<open>ideas\<close> that it keeps as it was and adds rows only with
  counter 0; and the listing does not read the column: overwriting it with anything gives
  the same listing.
\<close>

theorem legacy_counter_zero:
  assumes "reachable c"
  shows "(\<forall>i \<in> set (ideas c). ideas_votes i = 0) \<and>
         (step x d = Inr d' \<longrightarrow> (\<forall>i \<in> set (ideas d'). i \<in> set (ideas d) \<or> ideas_votes i = 0)) \<and>
         fetch_ideas category u (c\<lparr>ideas := map (ideas_votes_update f) (ideas c)\<rparr>) =
           fetch_ideas category u c"
  using reachable_inv[OF assms] step_keeps_counter[of x d d']
  by (simp add: store_inv_def fetch_ideas_ignores_counter)

theorem legacy_counter_zero_witness:
  "reachable abc_board \<and> map ideas_votes (ideas abc_board) = [0, 0, 0] \<and>
   step (AddIdea ''food'' (Some pizza) 7) voted_once = Inr voted_pizza \<and>
   map ideas_votes (ideas voted_pizza) = [0] \<and>
   fetch_ideas ''food'' ''u4''
     (abc_board\<lparr>ideas := map (ideas_votes_update (\<lambda>_. 7)) (ideas abc_board)\<rparr>) =
     [row_C, row_A, row_B]"
proof -
  have s: "step (AddIdea ''food'' (Some pizza) 7) voted_once = Inr voted_pizza"
    by (simp add: add_idea_def insert_idea_def py_strip_def py_isspace_def pizza_def
        next_rowid_def voted_once_def voted_pizza_def)
  have z: "map ideas_votes (ideas abc_board) = [0, 0, 0]" "map ideas_votes (ideas voted_pizza) = [0]"
    by (simp_all add: abc_board_def voted_pizza_def)
  from legacy_counter_zero[OF reachable_abc,
      of "AddIdea ''food'' (Some pizza) 7" voted_once voted_pizza "''food''" "''u4''" "\<lambda>_. 7"]
  have "fetch_ideas ''food'' ''u4''
     (abc_board\<lparr>ideas := map (ideas_votes_update (\<lambda>_. 7)) (ideas abc_board)\<rparr>) =
     fetch_ideas ''food'' ''u4'' abc_board"
    by blast
  with s z reachable_abc show ?thesis by (simp add: fetch_abc)
qed


section \<open>Deleting ideas\<close>

lemma delete_idea_unenforced:
  assumes "\<not> foreign_keys c"
  shows "delete_idea x c = Inr (PyNone, c\<lparr>ideas := filter (\<lambda>i. ideas_id i \<noteq> x) (ideas c)\<rparr>)"
  using assms by (simp add: delete_idea_def delete_from_ideas_def)

lemma delete_idea_enforced:
  assumes "foreign_keys c"
  shows "delete_idea x c =
           Inr (PyNone, c\<lparr>ideas := filter (\<lambda>i. ideas_id i \<noteq> x) (ideas c),
                          votes := filter (\<lambda>v. votes_idea_id v \<noteq> x) (votes c)\<rparr>)"
  using assms by (simp add: delete_idea_def delete_from_ideas_def)

lemma delete_idea_hides:
  assumes "delete_idea x c = Inr (r, c')"
  shows "x \<notin> row_id ` set (fetch_ideas category u c')"
proof
  assume "x \<in> row_id ` set (fetch_ideas category u c')"
  then obtain w where "w \<in> set (fetch_ideas category u c')" "row_id w = x" by auto
  with fetch_ideas_rows[of w category u c'] have "x \<in> ideas_id ` set (ideas c')" by force
  with assms show False by (auto simp: delete_idea_def delete_from_ideas_def)
qed

lemma delete_idea_repeat:
  assumes "delete_idea x c = Inr (r, c')"
  shows "delete_idea x c' = Inr (PyNone, c')"
  using assms by (auto simp: delete_idea_def delete_from_ideas_def)

lemma delete_idea_absent:
  assumes "x \<notin> ideas_id ` set (ideas c)" "\<not> foreign_keys c"
  shows "delete_idea x c = Inr (PyNone, c)"
proof -
  from assms(1) have "filter (\<lambda>i. ideas_id i \<noteq> x) (ideas c) = ideas c"
    by (auto simp: filter_id_conv)
  with assms(2) show ?thesis by (simp add: delete_idea_unenforced)
qed

text \<open>
  C1. \<^verbatim>\<open>delete_idea\<close> is to remove the idea together with every vote that references it
  (the comment on line 113 expects \<^verbatim>\<open>ON DELETE CASCADE\<close> to do so). Evaluated on the
  example board, which the calls \<open>abc_calls\<close> build: \<^verbatim>\<open>delete_idea(1)\<close> returns, idea 1
  is gone, and its three votes are still in table \<^verbatim>\<open>votes\<close>, because the connection
  never turned foreign keys on.
\<close>

theorem delete_idea_leaves_votes:
  "run abc_calls get_conn = Inr abc_board \<and>
   map_sum id (\<lambda>(r, c). (r, map ideas_id (ideas c), map vote_key (votes c)))
     (delete_idea 1 abc_board) =
   Inr (PyNone, [2, 3],
        [(1, ''u1''), (1, ''u2''), (1, ''u3''), (2, ''u1''), (2, ''u2''), (2, ''u3''),
         (3, ''u1''), (3, ''u2''), (3, ''u3''), (3, ''u4''), (3, ''u5'')])"
  by (simp add: run_abc) (simp add: delete_idea_def delete_from_ideas_def abc_board_def vote_key_def)

section \<open>Votes without an idea\<close>

text \<open>
  Under enforcement the \<^verbatim>\<open>INSERT\<close> for an id that no idea has fails, and the
  \<^verbatim>\<open>except\<close> clause makes the call change nothing.
\<close>

lemma toggle_vote_enforced_absent:
  assumes "foreign_keys c" "x \<notin> ideas_id ` set (ideas c)" "\<not> has_voted x u c"
  shows "toggle_vote x u now c = Inr (PyNone, c)"
proof -
  from assms(2) have "\<not> list_ex (\<lambda>i. ideas_id i = x) (ideas c)"
    by (auto simp: list_ex_iff)
  with assms(1,3) show ?thesis
    by (simp add: toggle_vote_def select_vote_id_None[THEN iffD2] try_insert_vote_def
        insert_vote_def list_ex_has_voted)
qed

lemma run_deleted: "run [AddIdea ''food'' (Some pizza) 7, DeleteIdea 1] get_conn = Inr deleted_board"
  by (simp add: get_conn_def deleted_board_def add_idea_def insert_idea_def py_strip_def
      py_isspace_def pizza_def next_rowid_def delete_idea_def delete_from_ideas_def Let_def)

text \<open>
  C5. \<^verbatim>\<open>toggle_vote\<close> for an id that no idea has is to change nothing. Evaluated after
  \<^verbatim>\<open>add_idea("food", "pizza")\<close> and \<^verbatim>\<open>delete_idea(1)\<close>, when both tables are empty:
  \<^verbatim>\<open>toggle_vote(1, "s")\<close> returns without an error and has inserted a vote row for the
  deleted id 1.
\<close>

theorem toggle_vote_on_deleted_idea:
  "run [AddIdea ''food'' (Some pizza) 7, DeleteIdea 1] get_conn = Inr deleted_board \<and>
   ideas deleted_board = [] \<and> votes deleted_board = [] \<and>
   toggle_vote 1 ''s'' 9 deleted_board =
     Inr (PyNone,
          deleted_board\<lparr>votes := [\<lparr>votes_id = 1, votes_idea_id = 1, votes_user_id = ''s'',
                                    votes_created_at = 9\<rparr>],
                        votes_seq := 1\<rparr>)"
  by (intro conjI run_deleted)
     (simp_all add: deleted_board_def toggle_vote_def select_vote_id_def try_insert_vote_def
        insert_vote_def next_rowid_def)

section \<open>Adding ideas\<close>

lemma add_idea_rejects:
  assumes "py_strip (case content of None \<Rightarrow> [] | Some s \<Rightarrow> s) = []"
  shows "add_idea category content now c = Inr (False, c)"
  using assms by (simp add: add_idea_def)

lemma add_idea_accepts:
  assumes "py_strip (case content of None \<Rightarrow> [] | Some s \<Rightarrow> s) \<noteq> []"
    and "category = ''food'' \<or> category = ''festival''"
  shows "add_idea category content now c =
           Inr (True,
                c\<lparr>ideas := ideas c @
                     [\<lparr>ideas_id = next_rowid (ideas_seq c) (map ideas_id (ideas c)),
                       ideas_category = category,
                       ideas_content = py_strip (case content of None \<Rightarrow> [] | Some s \<Rightarrow> s),
                       ideas_votes = 0, ideas_created_at = now\<rparr>],
                   ideas_seq := next_rowid (ideas_seq c) (map ideas_id (ideas c))\<rparr>)"
  using assms by (auto simp: add_idea_def insert_idea_def Let_def)

lemma add_idea_bad_category:
  assumes "py_strip (case content of None \<Rightarrow> [] | Some s \<Rightarrow> s) \<noteq> []"
    and "category \<noteq> ''food''" "category \<noteq> ''festival''"
  shows "add_idea category content now c = Inl IntegrityError"
  using assms by (simp add: add_idea_def insert_idea_def)

text \<open>
  The accepted idea is in the listing of its category, with the id just assigned, the
  stripped text, the current time, and as many votes as rows of \<^verbatim>\<open>votes\<close> already
  reference that id.
\<close>

lemma add_idea_listed:
  assumes "add_idea category content now c = Inr (True, c')"
  shows "\<exists>r \<in> set (fetch_ideas category u c').
           row_id r = next_rowid (ideas_seq c) (map ideas_id (ideas c)) \<and>
           row_content r = py_strip (case content of None \<Rightarrow> [] | Some s \<Rightarrow> s) \<and>
           row_created_at r = now \<and>
           row_votes r = length (filter (\<lambda>v. votes_idea_id v = row_id r) (votes c))"
proof -
  let ?n = "next_rowid (ideas_seq c) (map ideas_id (ideas c))"
  let ?s = "py_strip (case content of None \<Rightarrow> [] | Some s \<Rightarrow> s)"
  let ?i = "\<lparr>ideas_id = ?n, ideas_category = category, ideas_content = ?s,
             ideas_votes = 0, ideas_created_at = now\<rparr>"
  from assms have c': "c' = c\<lparr>ideas := ideas c @ [?i], ideas_seq := ?n\<rparr>"
    by (auto simp: add_idea_def insert_idea_def Let_def split: if_splits)
  then have "?i \<in> set (ideas c')" "ideas_category ?i = category" by simp_all
  from fetch_ideas_complete[OF this, of u] obtain r where
    r: "r \<in> set (fetch_ideas category u c')" "row_id r = ?n" by auto
  from fetch_ideas_rows[OF r(1)] obtain i where
    v: "row_votes r = length (filter (\<lambda>v. votes_idea_id v = row_id r) (votes c'))" and
    i: "i \<in> set (ideas c')" "ideas_id i = row_id r" "ideas_content i = row_content r"
       "ideas_created_at i = row_created_at r"
    by blast
  have "i \<notin> set (ideas c)"
    using next_rowid_fresh[of "ideas_seq c" "map ideas_id (ideas c)"] i(2) r(2) by force
  with i(1) c' have "i = ?i" by simp
  with i(3,4) have "row_content r = ?s" "row_created_at r = now" by simp_all
  with r v c' show ?thesis by auto
qed


end
